theory Spec2Isabelle
  imports Main
begin

section \<open>The thread pool of ThreadPool.h as a transition system\<close>

text \<open>
  The class \<open>ThreadPool\<close> owns a vector of worker threads, a queue of tasks, one mutex
  (\<open>queue_mutex\<close>), one condition variable and the flag \<open>stop\<close>. Several threads run its
  code at once, so the embedding is a step function on the shared state: every event is one
  atomic piece of one thread's code, and a run is a list of events (a schedule).

  What running a callable does: it returns, it throws a \<open>std::exception\<close> (with its
  \<open>what()\<close> text), or it throws something else.
\<close>

datatype outcome = Returns | Throws_std string | Throws_other

text \<open>
  A queue element. The queue is a private member and only \<open>enqueue\<close> pushes to it, so
  every element is the lambda of lines 49-51 around the \<open>packaged_task\<close> of line 40, whose
  callable is the caller's \<open>f\<close> bound to \<open>args\<close>. \<open>body\<close> is what running that callable
  does; \<open>ident\<close> tells tasks apart.
\<close>

datatype task = Task (ident: nat) (body: outcome)

text \<open>
  What the call \<open>task()\<close> of line 83 (and 151) does, as the worker sees it. The packaged
  task runs its callable and stores what the callable returns or throws in the shared state
  of the future; nothing is thrown to the caller. (A packaged task throws when it is
  invoked a second time; an element is popped once and invoked once.)
\<close>

definition invoke :: "task \<Rightarrow> outcome" where
  "invoke t = Returns"

text \<open>
  Who holds \<open>queue_mutex\<close>: a client thread (one that calls \<open>enqueue\<close>, \<open>resize\<close>, ...) or
  the worker stored at an index of \<open>workers\<close>.
\<close>

datatype owner = Client | Worker nat

text \<open>
  An element of \<open>std::vector<std::thread> workers\<close>, as the point its thread has reached in
  the consume loop (lines 69-91, and the same loop again in lines 138-157):
  \<^item> \<open>WStart\<close>: at line 72, about to construct the \<open>unique_lock\<close>;
  \<^item> \<open>WLocked\<close>: holds the mutex, about to evaluate the predicate of \<open>condition.wait\<close>
    (line 75) and the test of line 76;
  \<^item> \<open>WWaiting\<close>: blocked inside \<open>condition.wait\<close>, mutex released;
  \<^item> \<open>WPopping\<close>: holds the mutex, past the test of line 76, about to call \<open>front()\<close> and
    \<open>pop()\<close> (lines 79-80);
  \<^item> \<open>WExecuting t\<close>: the locked block is left, \<open>t\<close> is about to be invoked (lines 82-90);
  \<^item> \<open>WUndefined\<close>: the thread has called \<open>front()\<close> and \<open>pop()\<close> on an empty queue, which
    is undefined behaviour. What the program does from there on is not defined; the
    model keeps the thread at this point for good, the mutex still in its hands;
  \<^item> \<open>WExited\<close>: the thread function has returned (line 76); the thread is still joinable;
  \<^item> \<open>NotJoinable\<close>: a \<open>std::thread\<close> that was joined (or default-constructed).
\<close>

datatype thread =
  WStart | WLocked | WWaiting | WPopping | WExecuting task | WUndefined | WExited | NotJoinable

text \<open>
  The thread that owns the pool: between two calls (\<open>Ready\<close>), inside the join loop of a
  shrinking \<open>resize\<close> (lines 121-126, \<open>ShrinkJoin threads i\<close> with \<open>i\<close> the index the iterator
  is at), inside the join loop of the destructor (lines 100-104), or done with the pool.
\<close>

datatype control = Ready | ShrinkJoin nat nat | DtorJoin nat | Destroyed

text \<open>
  The members of the class, the owner's \<open>control\<close> point, and four logs, each in the
  order it happened: the tasks popped from the queue, the tasks invoked, the lines written
  to \<open>std::cerr\<close>, and the tasks destroyed while still in a queue (\<open>broken\<close>).
\<close>

record pool =
  workers :: "thread list"
  tasks :: "task list"
  stop :: bool
  queue_mutex :: "owner option"
  control :: control
  dequeued :: "task list"
  executed :: "task list"
  cerr :: "string list"
  broken :: "task list"

datatype error = Runtime_error string

datatype future = Future task

text \<open>
  The state of the future that \<open>enqueue\<close> returned for a task. Invoking the task stores
  what its callable did (a value, or the exception it threw). Destroying a packaged task
  that was never invoked makes its future ready with the error \<open>broken_promise\<close>; the
  lambda in the queue is the last owner of the packaged task, so this happens when the
  queue element is destroyed. Until one or the other happens the future is pending.
\<close>

datatype handle = Pending | Holds outcome | Broken_promise

definition result_handle :: "pool \<Rightarrow> task \<Rightarrow> handle" where
  "result_handle p t =
     (if t \<in> set (executed p) then Holds (body t)
      else if t \<in> set (broken p) then Broken_promise
      else Pending)"

subsection \<open>Constructor, enqueue, clear\<close>

text \<open>Lines 65-94: \<open>stop(false)\<close>, and \<open>threads\<close> workers, each at the top of its loop.\<close>

definition ThreadPool :: "nat \<Rightarrow> pool" where
  "ThreadPool threads =
     \<lparr>workers = replicate threads WStart, tasks = [], stop = False, queue_mutex = None,
      control = Ready, dequeued = [], executed = [], cerr = [], broken = []\<rparr>"

text \<open>
  Lines 33-56, with \<open>t\<close> for the element that lines 40-51 build from the call's \<open>f\<close> and
  \<open>args\<close> and \<open>Future t\<close> for the future of line 42.
  The size of \<open>workers\<close> is tested before the mutex is taken. Constructing the
  \<open>unique_lock\<close> blocks while another thread holds the mutex: the call does not return
  (\<open>None\<close>). A \<open>throw\<close> inside the block unwinds the lock. \<open>condition.notify_one()\<close> wakes a
  waiting worker; a waiting worker of this model may wake at any time, as
  \<open>condition_variable::wait\<close> may, so the notification changes no state.
\<close>

definition enqueue :: "task \<Rightarrow> pool \<Rightarrow> ((error + future) \<times> pool) option" where
  "enqueue t p =
     (if length (workers p) = 0
      then Some (Inl (Runtime_error ''enqueue called on empty ThreadPool''), p)
      else if queue_mutex p \<noteq> None then None
      else
        let p1 = p\<lparr>queue_mutex := Some Client\<rparr> in
        if stop p1
        then Some (Inl (Runtime_error ''enqueue called on stopped ThreadPool''),
                   p1\<lparr>queue_mutex := None\<rparr>)
        else
          let p2 = p1\<lparr>tasks := tasks p1 @ [t]\<rparr>;
              p3 = p2\<lparr>queue_mutex := None\<rparr>
          in Some (Inr (Future t), p3))"

text \<open>
  Lines 60-63: the queue is swapped with an empty local one, \<open>swapQ\<close>, which the end of
  the function destroys together with the elements it then holds. No lock is taken.
\<close>

definition clear :: "pool \<Rightarrow> pool" where
  "clear p = p\<lparr>tasks := [], broken := broken p @ tasks p\<rparr>"

subsection \<open>The consume loop of a worker\<close>

text \<open>Lines 84-90: what the two \<open>catch\<close> clauses write to \<open>std::cerr\<close>.\<close>

fun diagnostic :: "outcome \<Rightarrow> string list" where
  "diagnostic Returns = []"
| "diagnostic (Throws_std what) = [''Caught exception in thread pool task: '' @ what]"
| "diagnostic Throws_other = [''Caught non-standard exception in thread pool task'']"

text \<open>
  One step of the worker at index \<open>i\<close>. Taking the mutex (line 72, or on waking inside
  \<open>condition.wait\<close>, which may happen with or without a notification) is possible only
  while nobody holds it. The locked block is two steps. The first is the predicate of line
  75 and the test of line 76: the predicate false means waiting with the mutex released;
  line 76 returns when \<open>stop\<close> is set and the queue is empty; otherwise the thread goes on
  to line 79. The second is lines 79-81: \<open>front()\<close> and \<open>pop()\<close> take the front element and
  the mutex is released. Between the two steps \<open>enqueue\<close> and \<open>resize\<close> wait for the mutex,
  but \<open>clear\<close> takes no lock and may empty the queue: then \<open>front()\<close> and \<open>pop()\<close> run on an
  empty queue. (So they do when \<open>clear\<close> falls between line 79 and line 80.) Invoking the
  task (lines 82-90) is a step of its own, after which the loop starts again.
\<close>

definition worker_step :: "nat \<Rightarrow> pool \<Rightarrow> pool option" where
  "worker_step i p =
     (if length (workers p) \<le> i then None
      else case workers p ! i of
        WStart \<Rightarrow>
          if queue_mutex p = None
          then Some (p\<lparr>workers := (workers p)[i := WLocked], queue_mutex := Some (Worker i)\<rparr>)
          else None
      | WWaiting \<Rightarrow>
          if queue_mutex p = None
          then Some (p\<lparr>workers := (workers p)[i := WLocked], queue_mutex := Some (Worker i)\<rparr>)
          else None
      | WLocked \<Rightarrow>
          if \<not> (stop p \<or> tasks p \<noteq> [])
          then Some (p\<lparr>workers := (workers p)[i := WWaiting], queue_mutex := None\<rparr>)
          else if stop p \<and> tasks p = []
          then Some (p\<lparr>workers := (workers p)[i := WExited], queue_mutex := None\<rparr>)
          else Some (p\<lparr>workers := (workers p)[i := WPopping]\<rparr>)
      | WPopping \<Rightarrow>
          if tasks p = []
          then Some (p\<lparr>workers := (workers p)[i := WUndefined]\<rparr>)
          else Some (p\<lparr>workers := (workers p)[i := WExecuting (hd (tasks p))],
                       tasks := tl (tasks p),
                       dequeued := dequeued p @ [hd (tasks p)],
                       queue_mutex := None\<rparr>)
      | WExecuting t \<Rightarrow>
          Some (p\<lparr>workers := (workers p)[i := WStart],
                  executed := executed p @ [t],
                  cerr := cerr p @ diagnostic (invoke t)\<rparr>)
      | WUndefined \<Rightarrow> None
      | WExited \<Rightarrow> None
      | NotJoinable \<Rightarrow> None)"

subsection \<open>resize and the destructor\<close>

text \<open>
  Lines 107-161. The \<open>unique_lock\<close> of line 109 lives until the function returns. When
  shrinking, \<open>stop\<close> is set, the workers are notified, \<open>stop\<close> is reset, and the join loop
  starts at index \<open>threads\<close> with the mutex held. When growing, the new workers start at
  the top of the same loop and the mutex is released on return.
\<close>

definition resize :: "nat \<Rightarrow> pool \<Rightarrow> pool option" where
  "resize threads p =
     (if queue_mutex p \<noteq> None then None
      else
        let p1 = p\<lparr>queue_mutex := Some Client\<rparr>;
            sz = length (workers p1)
        in
        if threads < sz then
          let p2 = p1\<lparr>stop := True\<rparr>;
              p3 = p2\<lparr>stop := False\<rparr>
          in Some (p3\<lparr>control := ShrinkJoin threads threads\<rparr>)
        else if threads > sz then
          Some (p1\<lparr>workers := workers p1 @ replicate (threads - sz) WStart,
                   queue_mutex := None\<rparr>)
        else Some (p1\<lparr>queue_mutex := None\<rparr>))"

text \<open>
  One round of the loop of lines 121-126 at index \<open>i\<close>: \<open>thread.join()\<close> returns once the
  thread function has returned, and blocks until then. Past the last element, line 128
  erases the elements from index \<open>threads\<close> on, and returning releases the mutex.
\<close>

definition shrink_join :: "nat \<Rightarrow> nat \<Rightarrow> pool \<Rightarrow> pool option" where
  "shrink_join threads i p =
     (if i < length (workers p) then
        (case workers p ! i of
           NotJoinable \<Rightarrow> Some (p\<lparr>control := ShrinkJoin threads (Suc i)\<rparr>)
         | WExited \<Rightarrow> Some (p\<lparr>workers := (workers p)[i := NotJoinable],
                               control := ShrinkJoin threads (Suc i)\<rparr>)
         | _ \<Rightarrow> None)
      else Some (p\<lparr>workers := take threads (workers p), queue_mutex := None,
                    control := Ready\<rparr>))"

text \<open>Lines 96-99: \<open>stop = true\<close> and \<open>notify_all\<close>, with no lock taken.\<close>

definition destructor :: "pool \<Rightarrow> pool" where
  "destructor p = p\<lparr>stop := True, control := DtorJoin 0\<rparr>"

text \<open>
  One round of the loop of lines 100-104 at index \<open>i\<close>. Past the last element the
  destructor's body is done and the members are destroyed, the queue with the elements
  it then holds among them.
\<close>

definition dtor_join :: "nat \<Rightarrow> pool \<Rightarrow> pool option" where
  "dtor_join i p =
     (if i < length (workers p) then
        (case workers p ! i of
           NotJoinable \<Rightarrow> Some (p\<lparr>control := DtorJoin (Suc i)\<rparr>)
         | WExited \<Rightarrow> Some (p\<lparr>workers := (workers p)[i := NotJoinable],
                               control := DtorJoin (Suc i)\<rparr>)
         | _ \<Rightarrow> None)
      else Some (p\<lparr>control := Destroyed, broken := broken p @ tasks p\<rparr>))"

subsection \<open>Events and runs\<close>

text \<open>
  \<open>Enqueue\<close> may come from any thread. \<open>Clear\<close>, \<open>Resize\<close> and \<open>Destroy\<close> are calls of the
  owning thread, possible between two of its calls; \<open>Join\<close> is its next round of a join
  loop. \<open>Work i\<close> is a step of worker \<open>i\<close>. An event that cannot happen in a state (the
  thread is blocked, or is elsewhere) gives \<open>None\<close>.
\<close>

datatype event = Enqueue task | Clear | Resize nat | Destroy | Join | Work nat

fun step :: "event \<Rightarrow> pool \<Rightarrow> pool option" where
  "step (Enqueue t) p = map_option snd (enqueue t p)"
| "step Clear p = (if control p = Ready then Some (clear p) else None)"
| "step (Resize threads) p = (if control p = Ready then resize threads p else None)"
| "step Destroy p = (if control p = Ready then Some (destructor p) else None)"
| "step Join p =
     (case control p of
        ShrinkJoin threads i \<Rightarrow> shrink_join threads i p
      | DtorJoin i \<Rightarrow> dtor_join i p
      | _ \<Rightarrow> None)"
| "step (Work i) p = worker_step i p"

fun run :: "event list \<Rightarrow> pool \<Rightarrow> pool option" where
  "run [] p = Some p"
| "run (e # es) p = (case step e p of None \<Rightarrow> None | Some p' \<Rightarrow> run es p')"

section \<open>Auxiliary notions\<close>

text \<open>The tasks that the \<open>Enqueue\<close> events of a schedule hand to the pool, in order.\<close>

fun enqueued_by :: "event list \<Rightarrow> task list" where
  "enqueued_by [] = []"
| "enqueued_by (Enqueue t # es) = t # enqueued_by es"
| "enqueued_by (e # es) = enqueued_by es"

text \<open>
  The tasks in flight: popped by a worker and not yet invoked. \<open>held\<close> collects every task
  the pool has invoked, has in flight or has queued.
\<close>

definition in_flight :: "pool \<Rightarrow> task set" where
  "in_flight p = {t. WExecuting t \<in> set (workers p)}"

definition held :: "pool \<Rightarrow> task set" where
  "held p = set (executed p) \<union> in_flight p \<union> set (tasks p)"

fun in_shrink :: "control \<Rightarrow> bool" where
  "in_shrink (ShrinkJoin k i) = True"
| "in_shrink _ = False"

text \<open>The points of the consume loop at which the thread holds the mutex.\<close>

fun holds_lock :: "thread \<Rightarrow> bool" where
  "holds_lock WLocked = True"
| "holds_lock WPopping = True"
| "holds_lock WUndefined = True"
| "holds_lock _ = False"

fun in_dtor :: "control \<Rightarrow> bool" where
  "in_dtor (DtorJoin i) = True"
| "in_dtor Destroyed = True"
| "in_dtor _ = False"

text \<open>
  Who holds the mutex: a worker exactly while it is in its locked block (and then no other
  worker is), a client exactly while \<open>resize\<close> is in its join loop.
\<close>

definition lock_inv :: "pool \<Rightarrow> bool" where
  "lock_inv p \<longleftrightarrow>
     (case queue_mutex p of
        None \<Rightarrow>
          \<not> in_shrink (control p) \<and> (\<forall>j<length (workers p). \<not> holds_lock (workers p ! j))
      | Some Client \<Rightarrow>
          in_shrink (control p) \<and> (\<forall>j<length (workers p). \<not> holds_lock (workers p ! j))
      | Some (Worker i) \<Rightarrow>
          \<not> in_shrink (control p) \<and> i < length (workers p) \<and> holds_lock (workers p ! i) \<and>
          (\<forall>j<length (workers p). j \<noteq> i \<longrightarrow> \<not> holds_lock (workers p ! j)))"

text \<open>
  \<open>stop\<close> is set from the destructor on and at no other time between two steps; while it
  is not set no worker has returned; the join loop of \<open>resize\<close> stands at its first index,
  inside the vector.
\<close>

definition life_inv :: "pool \<Rightarrow> bool" where
  "life_inv p \<longleftrightarrow>
     (stop p \<longleftrightarrow> in_dtor (control p)) \<and>
     (\<not> stop p \<longrightarrow>
        (\<forall>j<length (workers p). workers p ! j \<noteq> WExited \<and> workers p ! j \<noteq> NotJoinable)) \<and>
     (case control p of ShrinkJoin k i \<Rightarrow> i = k \<and> k < length (workers p) | _ \<Rightarrow> True)"

text \<open>
  While tasks are queued no worker has returned; the destructor's join loop has joined
  every thread below its index.
\<close>

definition drain_inv :: "pool \<Rightarrow> bool" where
  "drain_inv p \<longleftrightarrow>
     (tasks p \<noteq> [] \<longrightarrow>
        (\<forall>j<length (workers p). workers p ! j \<noteq> WExited \<and> workers p ! j \<noteq> NotJoinable)) \<and>
     (case control p of
        DtorJoin i \<Rightarrow> \<forall>j<length (workers p). j < i \<longrightarrow> workers p ! j = NotJoinable
      | Destroyed \<Rightarrow> \<forall>j<length (workers p). workers p ! j = NotJoinable
      | _ \<Rightarrow> True)"

definition pool_inv :: "pool \<Rightarrow> bool" where
  "pool_inv p \<longleftrightarrow> lock_inv p \<and> life_inv p"

definition shutdown_inv :: "pool \<Rightarrow> bool" where
  "shutdown_inv p \<longleftrightarrow> life_inv p \<and> drain_inv p"

section \<open>Evaluating the model, runs and invariants\<close>

lemmas model_defs = ThreadPool_def enqueue_def clear_def invoke_def worker_step_def
  resize_def shrink_join_def destructor_def dtor_join_def Let_def

text \<open>A property that every step preserves holds along every run.\<close>

lemma run_invariant:
  assumes "\<And>e p p'. I p \<Longrightarrow> step e p = Some p' \<Longrightarrow> I p'"
    and "I p" and "run es p = Some p'"
  shows "I p'"
  using assms(2,3)
proof (induction es arbitrary: p)
  case Nil
  then show ?case by simp
next
  case (Cons e es)
  from Cons.prems(2) obtain q where q: "step e p = Some q" and r: "run es q = Some p'"
    by (simp split: option.splits)
  from assms(1) [OF Cons.prems(1) q] have "I q" .
  from Cons.IH [OF this r] show ?case .
qed

lemma run_ConsD:
  assumes "run (e # es) p = Some p'"
  obtains q where "step e p = Some q" and "run es q = Some p'"
  using assms by (auto split: option.splits)

subsection \<open>The mutex\<close>

lemma lock_inv_ThreadPool: "lock_inv (ThreadPool n)"
  by (simp add: lock_inv_def ThreadPool_def)

lemma lock_inv_step: "lock_inv p \<Longrightarrow> step e p = Some p' \<Longrightarrow> lock_inv p'"
proof (cases e)
  case (Enqueue t)
  assume "lock_inv p" "step e p = Some p'"
  with Enqueue show ?thesis
    by (clarsimp simp: lock_inv_def enqueue_def Let_def split: if_splits)
next
  case Clear
  assume "lock_inv p" "step e p = Some p'"
  with Clear show ?thesis
    by (clarsimp simp: lock_inv_def clear_def split: if_splits option.splits owner.splits)
next
  case (Resize k)
  assume "lock_inv p" "step e p = Some p'"
  with Resize show ?thesis
    by (clarsimp simp: lock_inv_def resize_def Let_def nth_append split: if_splits)
next
  case Destroy
  assume "lock_inv p" "step e p = Some p'"
  with Destroy show ?thesis
    by (clarsimp simp: lock_inv_def destructor_def split: if_splits option.splits owner.splits)
next
  case Join
  assume "lock_inv p" "step e p = Some p'"
  with Join show ?thesis
    by (clarsimp simp: lock_inv_def shrink_join_def dtor_join_def nth_list_update
        split: if_splits control.splits thread.splits option.splits owner.splits)
next
  case (Work i)
  assume inv: "lock_inv p" and "step e p = Some p'"
  with Work have s: "step (Work i) p = Some p'" by simp
  then have i: "i < length (workers p)"
    by (simp add: worker_step_def split: if_splits)
  show ?thesis
  proof (cases "workers p ! i")
    case WStart
    with inv s i show ?thesis
      by (clarsimp simp: lock_inv_def worker_step_def nth_list_update split: if_splits)
  next
    case WLocked
    with inv s i show ?thesis
      by (clarsimp simp: lock_inv_def worker_step_def nth_list_update
          split: if_splits option.splits owner.splits; metis holds_lock.simps(1))
  next
    case WWaiting
    with inv s i show ?thesis
      by (clarsimp simp: lock_inv_def worker_step_def nth_list_update split: if_splits)
  next
    case WPopping
    with inv s i show ?thesis
      by (clarsimp simp: lock_inv_def worker_step_def nth_list_update
          split: if_splits option.splits owner.splits; metis holds_lock.simps(2))
  next
    case (WExecuting t)
    with inv s i show ?thesis
      by (clarsimp simp: lock_inv_def worker_step_def nth_list_update
          split: option.splits owner.splits)
  next
    case WUndefined
    with s i show ?thesis by (simp add: worker_step_def)
  next
    case WExited
    with s i show ?thesis by (simp add: worker_step_def)
  next
    case NotJoinable
    with s i show ?thesis by (simp add: worker_step_def)
  qed
qed

subsection \<open>The stop flag and the life of the workers\<close>

lemma life_inv_ThreadPool: "life_inv (ThreadPool n)"
  by (simp add: life_inv_def ThreadPool_def)

lemma life_inv_step: "life_inv p \<Longrightarrow> step e p = Some p' \<Longrightarrow> life_inv p'"
proof (cases e)
  case (Enqueue t)
  assume "life_inv p" "step e p = Some p'"
  with Enqueue show ?thesis
    by (clarsimp simp: life_inv_def enqueue_def Let_def split: if_splits control.splits)
next
  case Clear
  assume "life_inv p" "step e p = Some p'"
  with Clear show ?thesis
    by (clarsimp simp: life_inv_def clear_def split: if_splits)
next
  case (Resize k)
  assume "life_inv p" "step e p = Some p'"
  with Resize show ?thesis
    by (clarsimp simp: life_inv_def resize_def Let_def nth_append split: if_splits)
next
  case Destroy
  assume "life_inv p" "step e p = Some p'"
  with Destroy show ?thesis
    by (clarsimp simp: life_inv_def destructor_def split: if_splits)
next
  case Join
  assume "life_inv p" "step e p = Some p'"
  with Join show ?thesis
    by (clarsimp simp: life_inv_def shrink_join_def dtor_join_def nth_list_update
        split: if_splits control.splits thread.splits)
next
  case (Work i)
  assume "life_inv p" "step e p = Some p'"
  with Work show ?thesis
    by (clarsimp simp: life_inv_def worker_step_def nth_list_update not_le
        split: if_splits thread.splits control.splits)
qed

lemma pool_inv_ThreadPool: "pool_inv (ThreadPool n)"
  by (simp add: pool_inv_def lock_inv_ThreadPool life_inv_ThreadPool)

lemma pool_inv_step: "pool_inv p \<Longrightarrow> step e p = Some p' \<Longrightarrow> pool_inv p'"
  by (simp add: pool_inv_def lock_inv_step [of p e p'] life_inv_step [of p e p'])

lemma pool_inv_run: "pool_inv p \<Longrightarrow> run es p = Some p' \<Longrightarrow> pool_inv p'"
  by (rule run_invariant [of pool_inv p es p']) (rule pool_inv_step)

lemma pool_inv_reachable: "run es (ThreadPool n) = Some p \<Longrightarrow> pool_inv p"
  by (rule pool_inv_run [OF pool_inv_ThreadPool])

text \<open>The step of a worker that leaves it about to invoke a task has released the mutex.\<close>

lemma pop_releases_mutex:
  assumes "worker_step i q = Some p" and "workers p ! i = WExecuting t"
  shows "queue_mutex p = None"
proof -
  from assms(1) have i: "i < length (workers q)"
    by (simp add: worker_step_def split: if_splits)
  show ?thesis
  proof (cases "workers q ! i")
    case WStart
    with assms i show ?thesis by (auto simp: worker_step_def split: if_splits)
  next
    case WLocked
    with assms i show ?thesis by (auto simp: worker_step_def split: if_splits)
  next
    case WWaiting
    with assms i show ?thesis by (auto simp: worker_step_def split: if_splits)
  next
    case WPopping
    with assms i show ?thesis by (auto simp: worker_step_def split: if_splits)
  next
    case (WExecuting u)
    with assms i show ?thesis by (auto simp: worker_step_def)
  next
    case WUndefined
    with assms i show ?thesis by (simp add: worker_step_def)
  next
    case WExited
    with assms i show ?thesis by (simp add: worker_step_def)
  next
    case NotJoinable
    with assms i show ?thesis by (simp add: worker_step_def)
  qed
qed

subsection \<open>The join loop of a shrinking resize\<close>

text \<open>
  In a state a run can reach, the join loop of \<open>resize\<close> stands at a worker that has not
  returned, so the join blocks; and no step of any thread changes that, since the client
  holds the mutex that every worker needs in order to return.
\<close>

lemma shrink_join_blocked:
  assumes "pool_inv p" and "control p = ShrinkJoin k i"
  shows "step Join p = None"
  using assms
  by (clarsimp simp: pool_inv_def life_inv_def shrink_join_def split: thread.splits)

lemma shrink_step:
  assumes "pool_inv p" and "control p = ShrinkJoin k i" and "step e p = Some p'"
  shows "control p' = ShrinkJoin k i \<and> queue_mutex p' = Some Client \<and>
         length (workers p') = length (workers p)"
proof (cases e)
  case (Enqueue t)
  with assms show ?thesis
    by (clarsimp simp: pool_inv_def lock_inv_def life_inv_def enqueue_def Let_def
        split: if_splits option.splits owner.splits)
next
  case Clear
  with assms show ?thesis by simp
next
  case (Resize n)
  with assms show ?thesis by simp
next
  case Destroy
  with assms show ?thesis by simp
next
  case Join
  with assms shrink_join_blocked [OF assms(1,2)] show ?thesis by simp
next
  case (Work j)
  with assms show ?thesis
    by (clarsimp simp: pool_inv_def lock_inv_def worker_step_def not_le
        split: if_splits thread.splits option.splits owner.splits;
        metis holds_lock.simps(1) holds_lock.simps(2))
qed

lemma shrink_run:
  assumes "pool_inv p" and "control p = ShrinkJoin k i" and "run es p = Some p'"
  shows "control p' = ShrinkJoin k i \<and> queue_mutex p' = Some Client \<and>
         length (workers p') = length (workers p)"
  using assms
proof (induction es arbitrary: p)
  case Nil
  then show ?case
    by (clarsimp simp: pool_inv_def lock_inv_def split: option.splits owner.splits)
next
  case (Cons e es)
  from Cons.prems(3) obtain q where q: "step e p = Some q" and r: "run es q = Some p'"
    by (simp split: option.splits)
  from shrink_step [OF Cons.prems(1,2) q] pool_inv_step [OF Cons.prems(1) q]
    Cons.IH [of q] r
  show ?case by simp
qed

lemma resize_shrink_effect:
  assumes "step (Resize k) p = Some q" and "k < length (workers p)"
  shows "control q = ShrinkJoin k k \<and> workers q = workers p"
  using assms by (clarsimp simp: resize_def Let_def split: if_splits)

text \<open>Growing, and resizing to the present size, return at once.\<close>

lemma resize_grow_or_equal:
  assumes "queue_mutex p = None" and "length (workers p) \<le> k"
  shows "resize k p =
           Some (p\<lparr>workers := workers p @ replicate (k - length (workers p)) WStart\<rparr>)"
  using assms by (auto simp: resize_def Let_def)

subsection \<open>The queue and the log of popped tasks\<close>

text \<open>
  A step leaves the queue alone, appends one task at its back, removes its front element
  (logging it), or empties it.
\<close>

lemma queue_step:
  assumes "step e p = Some q"
  shows "(tasks q = tasks p \<and> dequeued q = dequeued p) \<or>
         (\<exists>t. e = Enqueue t \<and> tasks q = tasks p @ [t] \<and> dequeued q = dequeued p) \<or>
         (\<exists>t. tasks p = t # tasks q \<and> dequeued q = dequeued p @ [t]) \<or>
         (e = Clear \<and> tasks q = [] \<and> dequeued q = dequeued p)"
proof (cases e)
  case (Enqueue t)
  with assms show ?thesis
    by (clarsimp simp: enqueue_def Let_def split: if_splits)
next
  case Clear
  with assms show ?thesis
    by (clarsimp simp: clear_def split: if_splits)
next
  case (Resize k)
  with assms show ?thesis
    by (clarsimp simp: resize_def Let_def split: if_splits)
next
  case Destroy
  with assms show ?thesis
    by (clarsimp simp: destructor_def split: if_splits)
next
  case Join
  with assms show ?thesis
    by (clarsimp simp: shrink_join_def dtor_join_def
        split: if_splits control.splits thread.splits)
next
  case (Work i)
  with assms show ?thesis
    by (clarsimp simp: worker_step_def split: if_splits thread.splits;
        cases "tasks p"; simp)
qed

text \<open>
  Along a run the log of popped tasks grows by a prefix of the queue the run started with,
  followed by tasks enqueued during the run.
\<close>

lemma dequeued_run:
  assumes "run es p = Some p'"
  shows "\<exists>n later. dequeued p' = dequeued p @ take n (tasks p) @ later \<and>
                    set later \<subseteq> set (enqueued_by es)"
  using assms
proof (induction es arbitrary: p)
  case Nil
  then have "dequeued p' = dequeued p @ take 0 (tasks p) @ []" by simp
  then show ?case by fastforce
next
  case (Cons e es)
  from Cons.prems obtain q where q: "step e p = Some q" and r: "run es q = Some p'"
    by (simp split: option.splits)
  from Cons.IH [OF r] obtain n later
    where d: "dequeued p' = dequeued q @ take n (tasks q) @ later"
      and l: "set later \<subseteq> set (enqueued_by es)"
    by blast
  have sub: "set (enqueued_by es) \<subseteq> set (enqueued_by (e # es))"
    by (cases e) auto
  from queue_step [OF q] consider
      (same) "tasks q = tasks p" "dequeued q = dequeued p"
    | (push) t where "e = Enqueue t" "tasks q = tasks p @ [t]" "dequeued q = dequeued p"
    | (pop) t where "tasks p = t # tasks q" "dequeued q = dequeued p @ [t]"
    | (clear) "e = Clear" "tasks q = []" "dequeued q = dequeued p"
    by blast
  then show ?case
  proof cases
    case same
    with d l sub show ?thesis by auto
  next
    case push
    let ?later = "take (n - length (tasks p)) [t] @ later"
    from push d have "dequeued p' = dequeued p @ take n (tasks p) @ ?later" by simp
    moreover from push l have "set ?later \<subseteq> set (enqueued_by (e # es))"
      by (auto dest: in_set_takeD)
    ultimately show ?thesis by blast
  next
    case pop
    from pop d have "dequeued p' = dequeued p @ take (Suc n) (tasks p) @ later" by simp
    with l sub show ?thesis by blast
  next
    case clear
    from clear d have "dequeued p' = dequeued p @ take 0 (tasks p) @ later" by simp
    with l sub show ?thesis by blast
  qed
qed

lemma take_reaches:
  assumes "B \<in> set (take n (xs @ A # ys @ B # zs))" and "B \<notin> set xs" and "B \<noteq> A"
    and "B \<notin> set ys"
  shows "take n (xs @ A # ys @ B # zs) = xs @ A # ys @ B # take (n - Suc (Suc (length xs + length ys))) zs"
proof -
  have "\<not> n \<le> Suc (length xs + length ys)"
  proof
    assume "n \<le> Suc (length xs + length ys)"
    then have "n - length (xs @ A # ys) = 0" by simp
    moreover have "take n ((xs @ A # ys) @ B # zs) =
        take n (xs @ A # ys) @ take (n - length (xs @ A # ys)) (B # zs)"
      by (rule take_append)
    ultimately have "take n ((xs @ A # ys) @ B # zs) = take n (xs @ A # ys)"
      by (simp only: take_0 append_Nil2)
    then have "take n (xs @ A # ys @ B # zs) = take n (xs @ A # ys)" by simp
    with assms(1) have "B \<in> set (xs @ A # ys)" by (auto dest: in_set_takeD)
    with assms(2-4) show False by simp
  qed
  then have "Suc (Suc (length xs + length ys)) \<le> n" by simp
  then obtain m where n: "n = Suc (Suc (length xs + length ys)) + m"
    using le_Suc_ex by blast
  have "take n ((xs @ A # ys @ [B]) @ zs) = (xs @ A # ys @ [B]) @ take m zs"
    unfolding n by (subst take_append) simp
  then show ?thesis using n by simp
qed

text \<open>
  If \<open>A\<close> stands before \<open>B\<close> in the queue and a run pops \<open>B\<close>, the run has popped the
  queue up to \<open>B\<close>, in the queue's order.
\<close>

lemma queue_order:
  assumes "run es p = Some p'" and "tasks p = xs @ A # ys @ B # zs"
    and "B \<notin> set xs" and "B \<noteq> A" and "B \<notin> set ys"
    and "B \<notin> set (enqueued_by es)"
    and "B \<in> set (drop (length (dequeued p)) (dequeued p'))"
  shows "\<exists>ws. dequeued p' = dequeued p @ xs @ A # ys @ B # ws"
proof -
  from dequeued_run [OF assms(1)] obtain n later
    where d: "dequeued p' = dequeued p @ take n (tasks p) @ later"
      and l: "set later \<subseteq> set (enqueued_by es)"
    by blast
  from d assms(7) have "B \<in> set (take n (tasks p)) \<or> B \<in> set later" by auto
  with l assms(6) have "B \<in> set (take n (tasks p))" by blast
  with assms(2) have "B \<in> set (take n (xs @ A # ys @ B # zs))" by simp
  from take_reaches [OF this assms(3,4,5)] assms(2) d
  have "dequeued p' = dequeued p @ xs @ A # ys @ B #
          (take (n - Suc (Suc (length xs + length ys))) zs @ later)"
    by simp
  then show ?thesis by blast
qed

text \<open>
  On a pool that has a worker and is not stopped, a call of \<open>enqueue\<close> that returns has
  appended its task.
\<close>

lemma enqueue_accepted:
  assumes "workers p \<noteq> []" and "\<not> stop p" and "step (Enqueue t) p = Some q"
  shows "q = p\<lparr>tasks := tasks p @ [t]\<rparr>"
  using assms by (auto simp: enqueue_def Let_def split: if_splits)

subsection \<open>Where tasks can come from and where they go\<close>

lemma in_update: "y \<in> set (xs[i := x]) \<Longrightarrow> y = x \<or> y \<in> set xs"
  using set_update_subset_insert [of xs i x] by auto

lemma in_update_keep:
  assumes "y \<in> set xs" and "xs ! i \<noteq> y"
  shows "y \<in> set (xs[i := x])"
proof -
  from assms(1) obtain j where j: "j < length xs" "xs ! j = y"
    by (auto simp: in_set_conv_nth)
  with assms(2) have "j \<noteq> i" by auto
  with j have "j < length (xs[i := x])" "xs[i := x] ! j = y" by simp_all
  then show ?thesis by (metis nth_mem)
qed

lemma mem_update_other:
  assumes "xs ! i \<noteq> y" and "y \<noteq> x"
  shows "y \<in> set (xs[i := x]) \<longleftrightarrow> y \<in> set xs"
  using assms in_update [of y xs i x] in_update_keep [of y xs i x] by blast

text \<open>A task the pool holds after a run was held before it or was enqueued during it.\<close>

lemma held_step:
  assumes "step e p = Some q"
  shows "held q \<subseteq> held p \<union> set (enqueued_by [e])"
proof (cases e)
  case (Enqueue t)
  with assms show ?thesis
    by (auto simp: held_def in_flight_def enqueue_def Let_def split: if_splits)
next
  case Clear
  with assms show ?thesis
    by (auto simp: held_def in_flight_def clear_def split: if_splits)
next
  case (Resize k)
  with assms show ?thesis
    by (auto simp: held_def in_flight_def resize_def Let_def split: if_splits)
next
  case Destroy
  with assms show ?thesis
    by (auto simp: held_def in_flight_def destructor_def split: if_splits)
next
  case Join
  with assms show ?thesis
    by (auto simp: held_def in_flight_def shrink_join_def dtor_join_def
        split: if_splits control.splits thread.splits dest: in_update in_set_takeD)
next
  case (Work i)
  with assms show ?thesis
    by (auto simp: held_def in_flight_def worker_step_def not_le
        split: if_splits thread.splits dest!: in_update dest: list.set_sel(2) nth_mem)
qed

lemma held_run:
  assumes "run es p = Some p'"
  shows "held p' \<subseteq> held p \<union> set (enqueued_by es)"
  using assms
proof (induction es arbitrary: p)
  case Nil
  then show ?case by simp
next
  case (Cons e es)
  from Cons.prems obtain q where q: "step e p = Some q" and r: "run es q = Some p'"
    by (simp split: option.splits)
  have "set (enqueued_by (e # es)) = set (enqueued_by [e]) \<union> set (enqueued_by es)"
    by (cases e) auto
  with held_step [OF q] Cons.IH [OF r] show ?case by blast
qed

text \<open>From the destructor on, the pool loses no task it holds.\<close>

lemma held_grows:
  assumes "in_dtor (control p)" and "step e p = Some q"
  shows "held p \<subseteq> held q \<and> in_dtor (control q)"
proof (cases e)
  case (Enqueue t)
  with assms show ?thesis
    by (auto simp: held_def in_flight_def enqueue_def Let_def split: if_splits)
next
  case Clear
  with assms show ?thesis by (auto split: if_splits)
next
  case (Resize k)
  with assms show ?thesis by (auto split: if_splits)
next
  case Destroy
  with assms show ?thesis by (auto split: if_splits)
next
  case Join
  with assms show ?thesis
    by (auto simp: held_def in_flight_def shrink_join_def dtor_join_def mem_update_other
        split: if_splits control.splits thread.splits)
next
  case (Work i)
  with assms have i: "i < length (workers p)"
    by (simp add: worker_step_def split: if_splits)
  show ?thesis
  proof (cases "workers p ! i")
    case WStart
    with assms Work i show ?thesis
      by (auto simp: held_def in_flight_def worker_step_def mem_update_other split: if_splits)
  next
    case WLocked
    with assms Work i show ?thesis
      by (auto simp: held_def in_flight_def worker_step_def mem_update_other split: if_splits)
  next
    case WPopping
    with assms Work i show ?thesis
      by (cases "tasks p")
        (auto simp: held_def in_flight_def worker_step_def in_update_keep set_update_memI
          split: if_splits)
  next
    case WUndefined
    with assms Work i show ?thesis by (simp add: worker_step_def)
  next
    case WWaiting
    with assms Work i show ?thesis
      by (auto simp: held_def in_flight_def worker_step_def mem_update_other split: if_splits)
  next
    case (WExecuting t)
    with assms Work i show ?thesis
      by (auto simp: held_def in_flight_def worker_step_def mem_update_other)
  next
    case WExited
    with assms Work i show ?thesis by (simp add: worker_step_def)
  next
    case NotJoinable
    with assms Work i show ?thesis by (simp add: worker_step_def)
  qed
qed

lemma held_grows_run:
  assumes "in_dtor (control p)" and "run es p = Some p'"
  shows "held p \<subseteq> held p'"
  using assms
proof (induction es arbitrary: p)
  case Nil
  then show ?case by simp
next
  case (Cons e es)
  from Cons.prems(2) obtain q where q: "step e p = Some q" and r: "run es q = Some p'"
    by (simp split: option.splits)
  from held_grows [OF Cons.prems(1) q] Cons.IH [of q] r show ?case by blast
qed

text \<open>The log of destroyed tasks only grows.\<close>

lemma broken_step:
  assumes "step e p = Some q"
  shows "set (broken p) \<subseteq> set (broken q)"
proof (cases e)
  case (Enqueue t)
  with assms show ?thesis
    by (auto simp: enqueue_def Let_def split: if_splits)
next
  case Clear
  with assms show ?thesis
    by (auto simp: clear_def split: if_splits)
next
  case (Resize k)
  with assms show ?thesis
    by (auto simp: resize_def Let_def split: if_splits)
next
  case Destroy
  with assms show ?thesis
    by (auto simp: destructor_def split: if_splits)
next
  case Join
  with assms show ?thesis
    by (auto simp: shrink_join_def dtor_join_def
        split: if_splits control.splits thread.splits)
next
  case (Work i)
  with assms show ?thesis
    by (auto simp: worker_step_def split: if_splits thread.splits)
qed

lemma broken_run:
  assumes "run es p = Some p'"
  shows "set (broken p) \<subseteq> set (broken p')"
  using assms
proof (induction es arbitrary: p)
  case Nil
  then show ?case by simp
next
  case (Cons e es)
  from Cons.prems obtain q where q: "step e p = Some q" and r: "run es q = Some p'"
    by (simp split: option.splits)
  from broken_step [OF q] Cons.IH [OF r] show ?case by blast
qed

text \<open>
  Undefined behaviour, once it has happened, stays on record: in a state a run reaches from
  the constructor no step takes a thread out of \<open>WUndefined\<close> or out of the vector.
\<close>

lemma undefined_stays:
  assumes "life_inv p" and "step e p = Some q" and "WUndefined \<in> set (workers p)"
  shows "WUndefined \<in> set (workers q)"
proof (cases e)
  case (Enqueue t)
  with assms show ?thesis
    by (auto simp: enqueue_def Let_def split: if_splits)
next
  case Clear
  with assms show ?thesis
    by (auto simp: clear_def split: if_splits)
next
  case (Resize k)
  with assms show ?thesis
    by (auto simp: resize_def Let_def split: if_splits)
next
  case Destroy
  with assms show ?thesis
    by (auto simp: destructor_def split: if_splits)
next
  case Join
  with assms show ?thesis
    by (auto simp: life_inv_def shrink_join_def dtor_join_def in_update_keep
        split: if_splits control.splits thread.splits)
next
  case (Work i)
  with assms(2,3) show ?thesis
    by (auto simp: worker_step_def in_update_keep split: if_splits thread.splits)
qed

subsection \<open>Shutdown\<close>

lemma drain_inv_ThreadPool: "drain_inv (ThreadPool n)"
  by (simp add: drain_inv_def ThreadPool_def)

lemma drain_inv_step:
  assumes "life_inv p" and "drain_inv p" and "step e p = Some q"
  shows "drain_inv q"
proof (cases e)
  case (Enqueue t)
  with assms show ?thesis
    by (clarsimp simp: life_inv_def drain_inv_def enqueue_def Let_def
        split: if_splits control.splits)
next
  case Clear
  with assms show ?thesis
    by (clarsimp simp: drain_inv_def clear_def split: if_splits)
next
  case (Resize k)
  with assms show ?thesis
    by (clarsimp simp: life_inv_def drain_inv_def resize_def Let_def nth_append
        split: if_splits)
next
  case Destroy
  with assms show ?thesis
    by (clarsimp simp: life_inv_def drain_inv_def destructor_def split: if_splits)
next
  case Join
  with assms show ?thesis
    by (clarsimp simp: life_inv_def drain_inv_def shrink_join_def dtor_join_def
        nth_list_update less_Suc_eq not_less
        split: if_splits control.splits thread.splits; blast)
next
  case (Work i)
  with assms show ?thesis
    by (clarsimp simp: drain_inv_def worker_step_def nth_list_update not_le
        split: if_splits thread.splits control.splits; (blast | force))
qed

lemma shutdown_inv_ThreadPool: "shutdown_inv (ThreadPool n)"
  by (simp add: shutdown_inv_def life_inv_ThreadPool drain_inv_ThreadPool)

lemma shutdown_inv_step: "shutdown_inv p \<Longrightarrow> step e p = Some q \<Longrightarrow> shutdown_inv q"
  by (simp add: shutdown_inv_def life_inv_step [of p e q] drain_inv_step [of p e q])

lemma shutdown_inv_run: "shutdown_inv p \<Longrightarrow> run es p = Some p' \<Longrightarrow> shutdown_inv p'"
  by (rule run_invariant [of shutdown_inv p es p']) (rule shutdown_inv_step)

lemma destroyed_drained:
  assumes "shutdown_inv p" and "control p = Destroyed" and "workers p \<noteq> []"
  shows "tasks p = [] \<and> held p = set (executed p)"
proof -
  from assms(1,2) have all: "\<forall>j<length (workers p). workers p ! j = NotJoinable"
    by (simp add: shutdown_inv_def drain_inv_def)
  from assms(3) have 0: "0 < length (workers p)" by simp
  with all have "workers p ! 0 = NotJoinable" by blast
  with assms(1) 0 have t: "tasks p = []"
    by (auto simp: shutdown_inv_def drain_inv_def)
  have "in_flight p = {}"
  proof -
    have "\<And>w. w \<in> set (workers p) \<Longrightarrow> w = NotJoinable"
      using all by (auto simp: in_set_conv_nth)
    then show ?thesis by (auto simp: in_flight_def)
  qed
  with t show ?thesis by (simp add: held_def)
qed

section \<open>The claims\<close>

subsection \<open>enqueue\<close>

text \<open>
  C1. A call of \<open>enqueue\<close> that is not kept waiting for the mutex returns. It raises the
  error exactly when the pool has no worker or \<open>stop\<close> is set, and then the pool, its queue
  included, is as before the call; otherwise the task is appended at the back of the queue
  and the future of the task is returned. Whenever the call returns at all, the same holds.
\<close>

theorem enqueue_invalid_state:
  "(queue_mutex p = None \<longrightarrow> enqueue t p \<noteq> None) \<and>
   (\<forall>r p'. enqueue t p = Some (r, p') \<longrightarrow>
      (isl r \<longleftrightarrow> length (workers p) = 0 \<or> stop p) \<and>
      (isl r \<longrightarrow> p' = p \<and> tasks p' = tasks p) \<and>
      (\<not> isl r \<longrightarrow> r = Inr (Future t) \<and> p' = p\<lparr>tasks := tasks p @ [t]\<rparr>))"
  by (auto simp: enqueue_def Let_def split: if_splits)

theorem enqueue_invalid_state_witness:
  "queue_mutex (ThreadPool 2) = None \<and>
   enqueue (Task 7 Returns) (ThreadPool 2) =
     Some (Inr (Future (Task 7 Returns)), (ThreadPool 2)\<lparr>tasks := [Task 7 Returns]\<rparr>) \<and>
   enqueue (Task 7 Returns) (ThreadPool 0) =
     Some (Inl (Runtime_error ''enqueue called on empty ThreadPool''), ThreadPool 0) \<and>
   enqueue (Task 7 Returns) ((ThreadPool 2)\<lparr>stop := True\<rparr>) =
     Some (Inl (Runtime_error ''enqueue called on stopped ThreadPool''),
           (ThreadPool 2)\<lparr>stop := True\<rparr>)"
proof -
  have free: "queue_mutex (ThreadPool 2) = None"
    by (simp add: ThreadPool_def)
  from enqueue_invalid_state [of "ThreadPool 2" "Task 7 Returns"] free
  obtain r p' where ret: "enqueue (Task 7 Returns) (ThreadPool 2) = Some (r, p')"
    by auto
  from enqueue_invalid_state [of "ThreadPool 2" "Task 7 Returns"] ret
  have "isl r \<longleftrightarrow> length (workers (ThreadPool 2)) = 0 \<or> stop (ThreadPool 2)"
    and "\<not> isl r \<longrightarrow> r = Inr (Future (Task 7 Returns)) \<and>
           p' = (ThreadPool 2)\<lparr>tasks := tasks (ThreadPool 2) @ [Task 7 Returns]\<rparr>"
    by blast+
  then have "r = Inr (Future (Task 7 Returns))"
    and "p' = (ThreadPool 2)\<lparr>tasks := [Task 7 Returns]\<rparr>"
    by (simp_all add: ThreadPool_def)
  with ret free show ?thesis
    by (simp add: enqueue_def ThreadPool_def)
qed

subsection \<open>FIFO order\<close>

text \<open>
  C2. The queue is first in, first out. Let \<open>A\<close> be enqueued on a pool that has a worker
  and is not stopped, and later \<open>B\<close>, on such a pool too, at a moment when \<open>A\<close> is in the
  queue and \<open>B\<close> is not. Then each call appends its task at the back of the queue; and
  if, in what follows, with \<open>B\<close> not enqueued again, \<open>B\<close> is popped, the tasks popped
  since \<open>B\<close> was enqueued are what the queue held then, in the queue's order, \<open>A\<close> among
  them, and \<open>B\<close> after them: \<open>A\<close> was popped before \<open>B\<close>. What follows is any schedule, with
  \<open>clear\<close>, \<open>resize\<close> and the destructor. Moreover a step of a worker that changes the
  queue removes its front element, which is the task the worker then holds.
\<close>

theorem fifo_order:
  assumes "workers p1 \<noteq> []" and "\<not> stop p1"
    and "run (Enqueue A # es2) p1 = Some p3"
    and "workers p3 \<noteq> []" and "\<not> stop p3"
    and "run (Enqueue B # es3) p3 = Some p'"
    and "A \<in> set (tasks p3)" and "B \<notin> set (tasks p3)"
    and "B \<notin> set (enqueued_by es3)"
  shows "step (Enqueue A) p1 = Some (p1\<lparr>tasks := tasks p1 @ [A]\<rparr>) \<and>
         step (Enqueue B) p3 = Some (p3\<lparr>tasks := tasks p3 @ [B]\<rparr>) \<and>
         (B \<in> set (drop (length (dequeued p3)) (dequeued p')) \<longrightarrow>
            (\<exists>us vs ws. tasks p3 = us @ A # vs \<and>
               drop (length (dequeued p3)) (dequeued p') = us @ A # vs @ B # ws)) \<and>
         (\<forall>i q. worker_step i p3 = Some q \<longrightarrow> tasks q \<noteq> tasks p3 \<longrightarrow>
            tasks p3 = hd (tasks p3) # tasks q \<and>
            dequeued q = dequeued p3 @ [hd (tasks p3)] \<and>
            workers q ! i = WExecuting (hd (tasks p3)))"
proof -
  from assms(3) obtain p2 where a: "step (Enqueue A) p1 = Some p2"
    by (rule run_ConsD)
  from enqueue_accepted [OF assms(1,2) a] a
  have pushA: "step (Enqueue A) p1 = Some (p1\<lparr>tasks := tasks p1 @ [A]\<rparr>)" by simp
  from assms(6) obtain p4 where b: "step (Enqueue B) p3 = Some p4"
    and r: "run es3 p4 = Some p'"
    by (rule run_ConsD)
  from enqueue_accepted [OF assms(4,5) b]
  have p4: "p4 = p3\<lparr>tasks := tasks p3 @ [B]\<rparr>" .
  with b have pushB: "step (Enqueue B) p3 = Some (p3\<lparr>tasks := tasks p3 @ [B]\<rparr>)" by simp
  from assms(7) obtain us vs where q3: "tasks p3 = us @ A # vs"
    by (auto simp: in_set_conv_decomp)
  with assms(8) have nB: "B \<notin> set us" "B \<noteq> A" "B \<notin> set vs" by auto
  from p4 q3 have q4: "tasks p4 = us @ A # vs @ B # []" and d4: "dequeued p4 = dequeued p3"
    by simp_all
  have order: "B \<in> set (drop (length (dequeued p3)) (dequeued p')) \<longrightarrow>
            (\<exists>us vs ws. tasks p3 = us @ A # vs \<and>
               drop (length (dequeued p3)) (dequeued p') = us @ A # vs @ B # ws)"
  proof
    assume "B \<in> set (drop (length (dequeued p3)) (dequeued p'))"
    with d4 have "B \<in> set (drop (length (dequeued p4)) (dequeued p'))" by simp
    from queue_order [OF r q4 nB assms(9) this] d4
    obtain ws where "dequeued p' = dequeued p3 @ us @ A # vs @ B # ws" by auto
    then have "drop (length (dequeued p3)) (dequeued p') = us @ A # vs @ B # ws" by simp
    with q3 show "\<exists>us vs ws. tasks p3 = us @ A # vs \<and>
               drop (length (dequeued p3)) (dequeued p') = us @ A # vs @ B # ws"
      by blast
  qed
  have pop: "\<forall>i q. worker_step i p3 = Some q \<longrightarrow> tasks q \<noteq> tasks p3 \<longrightarrow>
            tasks p3 = hd (tasks p3) # tasks q \<and>
            dequeued q = dequeued p3 @ [hd (tasks p3)] \<and>
            workers q ! i = WExecuting (hd (tasks p3))"
    by (cases "tasks p3") (auto simp: worker_step_def split: if_splits thread.splits)
  from pushA pushB order pop show ?thesis by blast
qed

theorem fifo_order_witness:
  "run [Enqueue (Task 1 Returns), Enqueue (Task 3 Returns)] (ThreadPool 2) =
     Some \<lparr>workers = [WStart, WStart], tasks = [Task 1 Returns, Task 3 Returns],
           stop = False, queue_mutex = None, control = Ready, dequeued = [], executed = [],
           cerr = [], broken = []\<rparr> \<and>
   run [Enqueue (Task 2 Returns), Work 0, Work 0, Work 0, Work 1, Work 1, Work 1, Work 1,
        Work 0, Work 0, Work 0, Work 0]
     \<lparr>workers = [WStart, WStart], tasks = [Task 1 Returns, Task 3 Returns],
      stop = False, queue_mutex = None, control = Ready, dequeued = [], executed = [],
      cerr = [], broken = []\<rparr> =
     Some \<lparr>workers = [WExecuting (Task 2 Returns), WStart], tasks = [],
           stop = False, queue_mutex = None, control = Ready,
           dequeued = [Task 1 Returns, Task 3 Returns, Task 2 Returns],
           executed = [Task 3 Returns, Task 1 Returns], cerr = [], broken = []\<rparr> \<and>
   (\<exists>us vs ws. [Task 1 Returns, Task 3 Returns, Task 2 Returns] =
      us @ Task 1 Returns # vs @ Task 2 Returns # ws)"
proof -
  let ?p3 = "\<lparr>workers = [WStart, WStart], tasks = [Task 1 Returns, Task 3 Returns],
           stop = False, queue_mutex = None, control = Ready, dequeued = [], executed = [],
           cerr = [], broken = []\<rparr>"
  let ?es3 = "[Work 0, Work 0, Work 0, Work 1, Work 1, Work 1, Work 1,
        Work 0, Work 0, Work 0, Work 0]"
  let ?p' = "\<lparr>workers = [WExecuting (Task 2 Returns), WStart], tasks = [],
           stop = False, queue_mutex = None, control = Ready,
           dequeued = [Task 1 Returns, Task 3 Returns, Task 2 Returns],
           executed = [Task 3 Returns, Task 1 Returns], cerr = [], broken = []\<rparr>"
  have w1: "workers (ThreadPool 2) \<noteq> []" and s1: "\<not> stop (ThreadPool 2)"
    by (simp_all add: ThreadPool_def)
  have r1: "run (Enqueue (Task 1 Returns) # [Enqueue (Task 3 Returns)]) (ThreadPool 2) =
      Some ?p3"
    by (simp add: model_defs numeral_2_eq_2)
  have w3: "workers ?p3 \<noteq> []" and s3: "\<not> stop ?p3" by simp_all
  have r3: "run (Enqueue (Task 2 Returns) # ?es3) ?p3 = Some ?p'"
    by (simp add: model_defs invoke_def)
  have inA: "Task 1 Returns \<in> set (tasks ?p3)"
    and ninB: "Task 2 Returns \<notin> set (tasks ?p3)"
    and nre: "Task 2 Returns \<notin> set (enqueued_by ?es3)"
    by simp_all
  from fifo_order [OF w1 s1 r1 w3 s3 r3 inA ninB nre]
  have "\<exists>us vs ws. drop (length (dequeued ?p3)) (dequeued ?p') =
          us @ Task 1 Returns # vs @ Task 2 Returns # ws"
    by auto
  with r1 r3 show ?thesis by simp
qed

subsection \<open>Shutdown\<close>

text \<open>
  C3, as the code has it. After the destructor has set \<open>stop\<close>, \<open>stop\<close> stays set, and a
  worker at the head of its locked block returns without touching the queue exactly when
  the queue is empty; while tasks are queued its next two steps, the test and the pop, take
  the front one, to invoke it next. When the
  destructor of a pool with at least one worker has returned, the queue is empty and every
  task that was queued when \<open>stop\<close> was set has been invoked.
\<close>

theorem shutdown_drains_queue:
  assumes "run es (ThreadPool n) = Some p" and "step Destroy p = Some q"
    and "run es' q = Some p'"
  shows "stop p' \<and>
         (\<forall>i. i < length (workers p') \<longrightarrow> workers p' ! i = WLocked \<longrightarrow>
            run (if tasks p' = [] then [Work i] else [Work i, Work i]) p' =
              Some (if tasks p' = []
                    then p'\<lparr>workers := (workers p')[i := WExited], queue_mutex := None\<rparr>
                    else p'\<lparr>workers := (workers p')[i := WExecuting (hd (tasks p'))],
                            tasks := tl (tasks p'),
                            dequeued := dequeued p' @ [hd (tasks p')],
                            queue_mutex := None\<rparr>)) \<and>
         (control p' = Destroyed \<longrightarrow> workers p' \<noteq> [] \<longrightarrow>
            tasks p' = [] \<and> set (tasks q) \<subseteq> set (executed p'))"
proof -
  have "shutdown_inv p"
    using shutdown_inv_ThreadPool assms(1) by (rule shutdown_inv_run)
  then have "shutdown_inv q" using assms(2) by (rule shutdown_inv_step)
  then have inv: "shutdown_inv p'" using assms(3) by (rule shutdown_inv_run)
  from assms(2) have dq: "in_dtor (control q)"
    by (auto simp: destructor_def split: if_splits)
  from held_grows_run [OF dq assms(3)] have h: "held q \<subseteq> held p'" .
  have dp': "in_dtor (control p')"
    using dq assms(3)
    by (rule run_invariant [of "\<lambda>s. in_dtor (control s)" q es' p', rotated])
      (simp add: held_grows)
  with inv have s: "stop p'" by (simp add: shutdown_inv_def life_inv_def)
  have "control p' = Destroyed \<longrightarrow> workers p' \<noteq> [] \<longrightarrow>
          tasks p' = [] \<and> set (tasks q) \<subseteq> set (executed p')"
    using destroyed_drained [OF inv] h by (auto simp: held_def)
  with s show ?thesis by (simp add: worker_step_def)
qed

theorem shutdown_drains_queue_witness:
  "run [Enqueue (Task 1 Returns), Enqueue (Task 2 Returns)] (ThreadPool 1) =
     Some \<lparr>workers = [WStart], tasks = [Task 1 Returns, Task 2 Returns], stop = False,
           queue_mutex = None, control = Ready, dequeued = [], executed = [], cerr = [], broken = []\<rparr> \<and>
   step Destroy
     \<lparr>workers = [WStart], tasks = [Task 1 Returns, Task 2 Returns], stop = False,
      queue_mutex = None, control = Ready, dequeued = [], executed = [], cerr = [], broken = []\<rparr> =
     Some \<lparr>workers = [WStart], tasks = [Task 1 Returns, Task 2 Returns], stop = True,
           queue_mutex = None, control = DtorJoin 0, dequeued = [], executed = [],
           cerr = [], broken = []\<rparr> \<and>
   run [Work 0, Work 0, Work 0, Work 0, Work 0, Work 0, Work 0, Work 0, Work 0, Work 0,
        Join, Join]
     \<lparr>workers = [WStart], tasks = [Task 1 Returns, Task 2 Returns], stop = True,
      queue_mutex = None, control = DtorJoin 0, dequeued = [], executed = [], cerr = [], broken = []\<rparr> =
     Some \<lparr>workers = [NotJoinable], tasks = [], stop = True,
           queue_mutex = None, control = Destroyed,
           dequeued = [Task 1 Returns, Task 2 Returns],
           executed = [Task 1 Returns, Task 2 Returns], cerr = [], broken = []\<rparr> \<and>
   set [Task 1 Returns, Task 2 Returns] \<subseteq> set [Task 1 Returns, Task 2 Returns]"
proof -
  let ?p = "\<lparr>workers = [WStart], tasks = [Task 1 Returns, Task 2 Returns], stop = False,
           queue_mutex = None, control = Ready, dequeued = [], executed = [], cerr = [], broken = []\<rparr>"
  let ?q = "\<lparr>workers = [WStart], tasks = [Task 1 Returns, Task 2 Returns], stop = True,
           queue_mutex = None, control = DtorJoin 0, dequeued = [], executed = [],
           cerr = [], broken = []\<rparr>"
  let ?p' = "\<lparr>workers = [NotJoinable], tasks = [], stop = True,
           queue_mutex = None, control = Destroyed,
           dequeued = [Task 1 Returns, Task 2 Returns],
           executed = [Task 1 Returns, Task 2 Returns], cerr = [], broken = []\<rparr>"
  have a: "run [Enqueue (Task 1 Returns), Enqueue (Task 2 Returns)] (ThreadPool 1) = Some ?p"
    by (simp add: model_defs)
  have b: "step Destroy ?p = Some ?q"
    by (simp add: model_defs)
  have c: "run [Work 0, Work 0, Work 0, Work 0, Work 0, Work 0, Work 0, Work 0, Work 0, Work 0,
        Join, Join] ?q = Some ?p'"
    by (simp add: model_defs)
  from shutdown_drains_queue [OF a b c]
  have "set (tasks ?q) \<subseteq> set (executed ?p')" by simp
  with a b c show ?thesis by simp
qed

text \<open>
  C3, as the claim states it, fails: a pool with one worker and one queued task is
  destroyed; \<open>stop\<close> is set while the task is queued, the worker then pops the task and
  invokes it, and only then returns and is joined.
\<close>

theorem shutdown_runs_queued_task:
  "run [Enqueue (Task 1 Returns), Destroy] (ThreadPool 1) =
     Some \<lparr>workers = [WStart], tasks = [Task 1 Returns], stop = True,
           queue_mutex = None, control = DtorJoin 0, dequeued = [], executed = [],
           cerr = [], broken = []\<rparr> \<and>
   run [Work 0, Work 0, Work 0]
     \<lparr>workers = [WStart], tasks = [Task 1 Returns], stop = True,
      queue_mutex = None, control = DtorJoin 0, dequeued = [], executed = [], cerr = [], broken = []\<rparr> =
     Some \<lparr>workers = [WExecuting (Task 1 Returns)], tasks = [], stop = True,
           queue_mutex = None, control = DtorJoin 0, dequeued = [Task 1 Returns],
           executed = [], cerr = [], broken = []\<rparr> \<and>
   run [Enqueue (Task 1 Returns), Destroy, Work 0, Work 0, Work 0, Work 0, Work 0, Work 0,
        Join, Join]
     (ThreadPool 1) =
     Some \<lparr>workers = [NotJoinable], tasks = [], stop = True,
           queue_mutex = None, control = Destroyed, dequeued = [Task 1 Returns],
           executed = [Task 1 Returns], cerr = [], broken = []\<rparr>"
  by (simp add: model_defs)

subsection \<open>Lock discipline\<close>

text \<open>
  C4. \<open>clear\<close> and the destructor take no lock: while a worker holds \<open>queue_mutex\<close>, a
  call of \<open>clear\<close> by the owner still empties the queue and the destructor still writes
  \<open>stop\<close>, the worker holding the mutex all the while. In the same state \<open>resize\<close> and
  \<open>enqueue\<close> (on a pool with workers) wait for the mutex.
\<close>

theorem clear_and_destructor_unlocked:
  assumes "control p = Ready" and "queue_mutex p = Some (Worker i)"
  shows "step Clear p = Some (p\<lparr>tasks := [], broken := broken p @ tasks p\<rparr>) \<and>
         queue_mutex (p\<lparr>tasks := [], broken := broken p @ tasks p\<rparr>) = Some (Worker i) \<and>
         step Destroy p = Some (p\<lparr>stop := True, control := DtorJoin 0\<rparr>) \<and>
         queue_mutex (p\<lparr>stop := True, control := DtorJoin 0\<rparr>) = Some (Worker i) \<and>
         step (Resize k) p = None \<and>
         (workers p \<noteq> [] \<longrightarrow> step (Enqueue t) p = None)"
  using assms by (simp add: clear_def destructor_def resize_def enqueue_def)

theorem clear_and_destructor_unlocked_witness:
  "run [Enqueue (Task 1 Returns), Work 0] (ThreadPool 1) =
     Some \<lparr>workers = [WLocked], tasks = [Task 1 Returns], stop = False,
           queue_mutex = Some (Worker 0), control = Ready, dequeued = [], executed = [],
           cerr = [], broken = []\<rparr> \<and>
   step Clear
     \<lparr>workers = [WLocked], tasks = [Task 1 Returns], stop = False,
      queue_mutex = Some (Worker 0), control = Ready, dequeued = [], executed = [],
      cerr = [], broken = []\<rparr> =
     Some \<lparr>workers = [WLocked], tasks = [], stop = False,
           queue_mutex = Some (Worker 0), control = Ready, dequeued = [], executed = [],
           cerr = [], broken = [Task 1 Returns]\<rparr> \<and>
   step Destroy
     \<lparr>workers = [WLocked], tasks = [Task 1 Returns], stop = False,
      queue_mutex = Some (Worker 0), control = Ready, dequeued = [], executed = [],
      cerr = [], broken = []\<rparr> =
     Some \<lparr>workers = [WLocked], tasks = [Task 1 Returns], stop = True,
           queue_mutex = Some (Worker 0), control = DtorJoin 0, dequeued = [], executed = [],
           cerr = [], broken = []\<rparr>"
proof -
  let ?p = "\<lparr>workers = [WLocked], tasks = [Task 1 Returns], stop = False,
           queue_mutex = Some (Worker 0), control = Ready, dequeued = [], executed = [],
           cerr = [], broken = []\<rparr>"
  have r: "run [Enqueue (Task 1 Returns), Work 0] (ThreadPool 1) = Some ?p"
    by (simp add: model_defs)
  have a: "control ?p = Ready" by simp
  have b: "queue_mutex ?p = Some (Worker 0)" by simp
  from clear_and_destructor_unlocked [OF a b]
  have "step Clear ?p = Some (?p\<lparr>tasks := [], broken := broken ?p @ tasks ?p\<rparr>)"
    and "step Destroy ?p = Some (?p\<lparr>stop := True, control := DtorJoin 0\<rparr>)"
    by blast+
  with r show ?thesis by simp
qed

text \<open>
  C5. A shrinking \<open>resize\<close> joins with the mutex held. After a call \<open>resize(k)\<close> with \<open>k\<close>
  below the number of workers, whatever the threads do next, \<open>resize\<close> is in its join loop
  at index \<open>k\<close> and holds the mutex; the join of worker \<open>k\<close> cannot return; and worker
  \<open>k\<close>, when it needs the mutex, cannot take it.
\<close>

theorem resize_joins_holding_mutex:
  assumes "run es (ThreadPool n) = Some p" and "k < length (workers p)"
    and "run (Resize k # es') p = Some p'"
  shows "control p' = ShrinkJoin k k \<and> queue_mutex p' = Some Client \<and>
         step Join p' = None \<and>
         (workers p' ! k = WStart \<or> workers p' ! k = WWaiting \<longrightarrow> step (Work k) p' = None)"
proof -
  from assms(3) obtain q where q: "step (Resize k) p = Some q" and r: "run es' q = Some p'"
    by (simp split: option.splits)
  have inv_p: "pool_inv p" using assms(1) by (rule pool_inv_reachable)
  have inv_q: "pool_inv q" using inv_p q by (rule pool_inv_step)
  have inv_p': "pool_inv p'" using inv_q r by (rule pool_inv_run)
  from resize_shrink_effect [OF q assms(2)] have cq: "control q = ShrinkJoin k k" by simp
  from shrink_run [OF inv_q cq r]
  have c: "control p' = ShrinkJoin k k" and m: "queue_mutex p' = Some Client" by simp_all
  from shrink_join_blocked [OF inv_p' c] have j: "step Join p' = None" .
  from m have "workers p' ! k = WStart \<or> workers p' ! k = WWaiting \<longrightarrow> step (Work k) p' = None"
    by (auto simp: worker_step_def)
  with c m j show ?thesis by simp
qed

theorem resize_joins_holding_mutex_witness:
  "run [Enqueue (Task 1 Returns), Work 0, Work 0, Work 0] (ThreadPool 2) =
     Some \<lparr>workers = [WExecuting (Task 1 Returns), WStart], tasks = [], stop = False,
           queue_mutex = None, control = Ready, dequeued = [Task 1 Returns],
           executed = [], cerr = [], broken = []\<rparr> \<and>
   run [Resize 1, Work 0]
     \<lparr>workers = [WExecuting (Task 1 Returns), WStart], tasks = [], stop = False,
      queue_mutex = None, control = Ready, dequeued = [Task 1 Returns],
      executed = [], cerr = [], broken = []\<rparr> =
     Some \<lparr>workers = [WStart, WStart], tasks = [], stop = False,
           queue_mutex = Some Client, control = ShrinkJoin 1 1, dequeued = [Task 1 Returns],
           executed = [Task 1 Returns], cerr = [], broken = []\<rparr> \<and>
   step Join
     \<lparr>workers = [WStart, WStart], tasks = [], stop = False,
      queue_mutex = Some Client, control = ShrinkJoin 1 1, dequeued = [Task 1 Returns],
      executed = [Task 1 Returns], cerr = [], broken = []\<rparr> = None \<and>
   step (Work 1)
     \<lparr>workers = [WStart, WStart], tasks = [], stop = False,
      queue_mutex = Some Client, control = ShrinkJoin 1 1, dequeued = [Task 1 Returns],
      executed = [Task 1 Returns], cerr = [], broken = []\<rparr> = None"
proof -
  let ?p = "\<lparr>workers = [WExecuting (Task 1 Returns), WStart], tasks = [], stop = False,
           queue_mutex = None, control = Ready, dequeued = [Task 1 Returns],
           executed = [], cerr = [], broken = []\<rparr>"
  let ?p' = "\<lparr>workers = [WStart, WStart], tasks = [], stop = False,
           queue_mutex = Some Client, control = ShrinkJoin 1 1, dequeued = [Task 1 Returns],
           executed = [Task 1 Returns], cerr = [], broken = []\<rparr>"
  have a: "run [Enqueue (Task 1 Returns), Work 0, Work 0, Work 0] (ThreadPool 2) = Some ?p"
    by (simp add: model_defs numeral_2_eq_2)
  have b: "1 < length (workers ?p)" by simp
  have c: "run (Resize 1 # [Work 0]) ?p = Some ?p'"
    by (simp add: model_defs)
  from resize_joins_holding_mutex [OF a b c]
  have "step Join ?p' = None \<and> step (Work 1) ?p' = None" by simp
  with a c show ?thesis by simp
qed

subsection \<open>clear\<close>

text \<open>
  C6, as the code has it. After \<open>clear\<close> the queue is empty, and the workers, among them
  those that hold a popped task, are as before: such a worker's next step invokes its
  task. The future of a task that \<open>clear\<close> discarded does not stay pending: destroying the
  task makes it ready with the error \<open>broken_promise\<close>. In a run after \<open>clear\<close> that ends
  with no thread in undefined behaviour, every task invoked had been invoked before, was
  in flight at the time of \<open>clear\<close>, or was enqueued after it; so a discarded task is not
  invoked, and its future keeps the error, unless the task is enqueued again. (In a pool
  reached from its constructor a thread in undefined behaviour stays so, by
  \<open>undefined_stays\<close>: a run that ends with none has passed through none.)
\<close>

theorem clear_discards_queue:
  "tasks (clear p) = [] \<and> workers (clear p) = workers p \<and> executed (clear p) = executed p \<and>
   (\<forall>t. t \<in> set (tasks p) \<longrightarrow> t \<notin> set (executed p) \<longrightarrow>
      result_handle (clear p) t = Broken_promise) \<and>
   (\<forall>i t. i < length (workers p) \<longrightarrow> workers p ! i = WExecuting t \<longrightarrow>
      (\<exists>q. step (Work i) (clear p) = Some q \<and> executed q = executed p @ [t])) \<and>
   (\<forall>es p' t. run es (clear p) = Some p' \<longrightarrow> WUndefined \<notin> set (workers p') \<longrightarrow>
      (t \<in> set (executed p') \<longrightarrow>
         t \<in> set (executed p) \<or> t \<in> in_flight p \<or> t \<in> set (enqueued_by es)) \<and>
      (t \<in> set (tasks p) \<longrightarrow> t \<notin> set (executed p) \<longrightarrow> t \<notin> in_flight p \<longrightarrow>
         t \<notin> set (enqueued_by es) \<longrightarrow> result_handle p' t = Broken_promise))"
proof -
  have later: "t \<in> set (executed p) \<or> t \<in> in_flight p \<or> t \<in> set (enqueued_by es)"
    if "run es (clear p) = Some p'" and "t \<in> set (executed p')" for es p' t
  proof -
    from that held_run [of es "clear p" p']
    have "t \<in> held (clear p) \<union> set (enqueued_by es)"
      by (auto simp: held_def)
    then show ?thesis
      by (auto simp: held_def in_flight_def clear_def)
  qed
  have handle: "result_handle p' t = Broken_promise"
    if "run es (clear p) = Some p'" and "t \<in> set (tasks p)" and "t \<notin> set (executed p)"
      and "t \<notin> in_flight p" and "t \<notin> set (enqueued_by es)" for es p' t
  proof -
    from later [OF that(1)] that(3-5) have "t \<notin> set (executed p')" by blast
    moreover from broken_run [OF that(1)] that(2) have "t \<in> set (broken p')"
      by (auto simp: clear_def)
    ultimately show ?thesis by (simp add: result_handle_def)
  qed
  have now: "\<forall>t. t \<in> set (tasks p) \<longrightarrow> t \<notin> set (executed p) \<longrightarrow>
      result_handle (clear p) t = Broken_promise"
    by (simp add: result_handle_def clear_def)
  have flight: "\<forall>i t. i < length (workers p) \<longrightarrow> workers p ! i = WExecuting t \<longrightarrow>
      (\<exists>q. step (Work i) (clear p) = Some q \<and> executed q = executed p @ [t])"
    by (simp add: clear_def worker_step_def)
  have fields: "tasks (clear p) = [] \<and> workers (clear p) = workers p \<and>
      executed (clear p) = executed p"
    by (simp add: clear_def)
  from fields now flight later handle show ?thesis by blast
qed

theorem clear_discards_queue_witness:
  "run [Enqueue (Task 1 Returns), Enqueue (Task 2 Returns), Work 0, Work 0, Work 0]
     (ThreadPool 1) =
   Some \<lparr>workers = [WExecuting (Task 1 Returns)], tasks = [Task 2 Returns], stop = False,
         queue_mutex = None, control = Ready, dequeued = [Task 1 Returns],
         executed = [], cerr = [], broken = []\<rparr> \<and>
   run [Work 0, Work 0, Work 0]
     (clear \<lparr>workers = [WExecuting (Task 1 Returns)], tasks = [Task 2 Returns], stop = False,
             queue_mutex = None, control = Ready, dequeued = [Task 1 Returns],
             executed = [], cerr = [], broken = []\<rparr>) =
   Some \<lparr>workers = [WWaiting], tasks = [], stop = False,
         queue_mutex = None, control = Ready, dequeued = [Task 1 Returns],
         executed = [Task 1 Returns], cerr = [], broken = [Task 2 Returns]\<rparr> \<and>
   Task 2 Returns \<notin> set [Task 1 Returns] \<and>
   result_handle \<lparr>workers = [WWaiting], tasks = [], stop = False,
         queue_mutex = None, control = Ready, dequeued = [Task 1 Returns],
         executed = [Task 1 Returns], cerr = [], broken = [Task 2 Returns]\<rparr>
     (Task 2 Returns) = Broken_promise"
proof -
  let ?p = "\<lparr>workers = [WExecuting (Task 1 Returns)], tasks = [Task 2 Returns],
      stop = False, queue_mutex = None, control = Ready, dequeued = [Task 1 Returns],
      executed = [], cerr = [], broken = []\<rparr>"
  let ?p' = "\<lparr>workers = [WWaiting], tasks = [], stop = False,
         queue_mutex = None, control = Ready, dequeued = [Task 1 Returns],
         executed = [Task 1 Returns], cerr = [], broken = [Task 2 Returns]\<rparr>"
  have a: "run [Enqueue (Task 1 Returns), Enqueue (Task 2 Returns), Work 0, Work 0, Work 0]
     (ThreadPool 1) = Some ?p"
    by (simp add: model_defs)
  have r: "run [Work 0, Work 0, Work 0] (clear ?p) = Some ?p'"
    by (simp add: model_defs)
  have u: "WUndefined \<notin> set (workers ?p')" by simp
  from clear_discards_queue [of ?p] r u
  have "(Task 2 Returns \<in> set (executed ?p') \<longrightarrow>
          Task 2 Returns \<in> set (executed ?p) \<or> Task 2 Returns \<in> in_flight ?p \<or>
          Task 2 Returns \<in> set (enqueued_by [Work 0, Work 0, Work 0])) \<and>
        (Task 2 Returns \<in> set (tasks ?p) \<longrightarrow> Task 2 Returns \<notin> set (executed ?p) \<longrightarrow>
          Task 2 Returns \<notin> in_flight ?p \<longrightarrow>
          Task 2 Returns \<notin> set (enqueued_by [Work 0, Work 0, Work 0]) \<longrightarrow>
          result_handle ?p' (Task 2 Returns) = Broken_promise)"
    by blast
  then have "Task 2 Returns \<notin> set (executed ?p')"
    and "result_handle ?p' (Task 2 Returns) = Broken_promise"
    by (simp_all add: in_flight_def)
  with a r show ?thesis by simp
qed

text \<open>
  C6, as the claim states it, fails. A pool with one worker is given a task and cleared:
  the task's future is then ready, with \<open>broken_promise\<close>. And when \<open>clear\<close> falls between
  the worker's test of line 76 and its pop of lines 79-80, the worker pops an empty queue.
\<close>

theorem clear_breaks_promises:
  "run [Enqueue (Task 1 Returns), Clear] (ThreadPool 1) =
     Some \<lparr>workers = [WStart], tasks = [], stop = False, queue_mutex = None,
           control = Ready, dequeued = [], executed = [], cerr = [],
           broken = [Task 1 Returns]\<rparr> \<and>
   result_handle
     \<lparr>workers = [WStart], tasks = [], stop = False, queue_mutex = None,
      control = Ready, dequeued = [], executed = [], cerr = [],
      broken = [Task 1 Returns]\<rparr> (Task 1 Returns) = Broken_promise \<and>
   run [Enqueue (Task 1 Returns), Work 0, Work 0, Clear, Work 0] (ThreadPool 1) =
     Some \<lparr>workers = [WUndefined], tasks = [], stop = False,
           queue_mutex = Some (Worker 0), control = Ready, dequeued = [], executed = [],
           cerr = [], broken = [Task 1 Returns]\<rparr>"
  by (simp add: model_defs result_handle_def)

subsection \<open>resize\<close>

text \<open>
  C7. A shrinking \<open>resize\<close> does not return: after a call \<open>resize(k)\<close> with \<open>k\<close> below
  the number of workers, in a pool reached from its constructor, no run brings the owner
  back from the call, and the vector of workers keeps its length, which is not \<open>k\<close>.
\<close>

theorem shrink_never_returns:
  assumes "run es (ThreadPool n) = Some p" and "k < length (workers p)"
    and "run (Resize k # es') p = Some p'"
  shows "control p' \<noteq> Ready \<and> length (workers p') = length (workers p) \<and>
         length (workers p') \<noteq> k"
proof -
  from assms(3) obtain q where q: "step (Resize k) p = Some q" and r: "run es' q = Some p'"
    by (simp split: option.splits)
  have inv_q: "pool_inv q"
    using pool_inv_reachable [OF assms(1)] q by (rule pool_inv_step)
  from resize_shrink_effect [OF q assms(2)]
  have cq: "control q = ShrinkJoin k k" and wq: "workers q = workers p" by simp_all
  from shrink_run [OF inv_q cq r] wq assms(2) show ?thesis by simp
qed

theorem shrink_never_returns_witness:
  "run [Enqueue (Task 1 Returns), Work 0, Work 0, Work 0] (ThreadPool 1) =
     Some \<lparr>workers = [WExecuting (Task 1 Returns)], tasks = [], stop = False,
           queue_mutex = None, control = Ready, dequeued = [Task 1 Returns],
           executed = [], cerr = [], broken = []\<rparr> \<and>
   run [Resize 0, Work 0]
     \<lparr>workers = [WExecuting (Task 1 Returns)], tasks = [], stop = False,
      queue_mutex = None, control = Ready, dequeued = [Task 1 Returns],
      executed = [], cerr = [], broken = []\<rparr> =
     Some \<lparr>workers = [WStart], tasks = [], stop = False,
           queue_mutex = Some Client, control = ShrinkJoin 0 0, dequeued = [Task 1 Returns],
           executed = [Task 1 Returns], cerr = [], broken = []\<rparr> \<and>
   control \<lparr>workers = [WStart], tasks = [], stop = False,
           queue_mutex = Some Client, control = ShrinkJoin 0 0, dequeued = [Task 1 Returns],
           executed = [Task 1 Returns], cerr = [], broken = []\<rparr> \<noteq> Ready"
proof -
  let ?p = "\<lparr>workers = [WExecuting (Task 1 Returns)], tasks = [], stop = False,
           queue_mutex = None, control = Ready, dequeued = [Task 1 Returns],
           executed = [], cerr = [], broken = []\<rparr>"
  let ?p' = "\<lparr>workers = [WStart], tasks = [], stop = False,
           queue_mutex = Some Client, control = ShrinkJoin 0 0, dequeued = [Task 1 Returns],
           executed = [Task 1 Returns], cerr = [], broken = []\<rparr>"
  have a: "run [Enqueue (Task 1 Returns), Work 0, Work 0, Work 0] (ThreadPool 1) = Some ?p"
    by (simp add: model_defs)
  have b: "(0::nat) < length (workers ?p)" by simp
  have c: "run (Resize 0 # [Work 0]) ?p = Some ?p'"
    by (simp add: model_defs)
  from shrink_never_returns [OF a b c] a c show ?thesis by simp
qed

subsection \<open>A task that throws\<close>

text \<open>
  C8, as the code has it. When the callable of the task a worker invokes throws, a
  standard exception or anything else, the packaged task stores what was thrown in the
  task's future and the call returns to the worker: the \<open>catch\<close> clauses are not entered
  and nothing is written to \<open>std::cerr\<close>. The step takes the worker back to the top of its
  loop. It changes no other worker, nor \<open>stop\<close>, the queue, the mutex or the owner's place;
  and when the mutex is free and a task is queued, the same worker's next three steps pop
  that task.
\<close>

theorem task_failure_contained:
  assumes "i < length (workers p)" and "workers p ! i = WExecuting t"
    and "body t \<noteq> Returns"
  shows "step (Work i) p =
           Some (p\<lparr>workers := (workers p)[i := WStart], executed := executed p @ [t]\<rparr>) \<and>
         (\<forall>q. step (Work i) p = Some q \<longrightarrow>
            result_handle q t = Holds (body t) \<and> cerr q = cerr p \<and>
            workers q ! i = WStart \<and> length (workers q) = length (workers p) \<and>
            (\<forall>j. j \<noteq> i \<longrightarrow> workers q ! j = workers p ! j) \<and>
            stop q = stop p \<and> tasks q = tasks p \<and> control q = control p \<and>
            queue_mutex q = queue_mutex p) \<and>
         (queue_mutex p = None \<longrightarrow> tasks p \<noteq> [] \<longrightarrow>
            (\<exists>q. run [Work i, Work i, Work i, Work i] p = Some q \<and>
                 workers q ! i = WExecuting (hd (tasks p)) \<and> tasks q = tl (tasks p)))"
proof -
  from assms(1,2) have s: "step (Work i) p =
           Some (p\<lparr>workers := (workers p)[i := WStart], executed := executed p @ [t]\<rparr>)"
    by (simp add: worker_step_def invoke_def)
  from assms(1) s have f: "\<forall>q. step (Work i) p = Some q \<longrightarrow>
            result_handle q t = Holds (body t) \<and> cerr q = cerr p \<and>
            workers q ! i = WStart \<and> length (workers q) = length (workers p) \<and>
            (\<forall>j. j \<noteq> i \<longrightarrow> workers q ! j = workers p ! j) \<and>
            stop q = stop p \<and> tasks q = tasks p \<and> control q = control p \<and>
            queue_mutex q = queue_mutex p"
    by (auto simp: result_handle_def)
  from assms(1,2) have n: "queue_mutex p = None \<longrightarrow> tasks p \<noteq> [] \<longrightarrow>
            (\<exists>q. run [Work i, Work i, Work i, Work i] p = Some q \<and>
                 workers q ! i = WExecuting (hd (tasks p)) \<and> tasks q = tl (tasks p))"
    by (simp add: worker_step_def)
  from s f n show ?thesis by blast
qed

theorem task_failure_contained_witness:
  "run [Enqueue (Task 1 (Throws_std ''boom'')), Enqueue (Task 2 Throws_other),
        Enqueue (Task 3 Returns), Work 0, Work 0, Work 0] (ThreadPool 1) =
   Some \<lparr>workers = [WExecuting (Task 1 (Throws_std ''boom''))],
      tasks = [Task 2 Throws_other, Task 3 Returns], stop = False,
      queue_mutex = None, control = Ready, dequeued = [Task 1 (Throws_std ''boom'')],
      executed = [], cerr = [], broken = []\<rparr> \<and>
   step (Work 0)
     \<lparr>workers = [WExecuting (Task 1 (Throws_std ''boom''))],
      tasks = [Task 2 Throws_other, Task 3 Returns], stop = False,
      queue_mutex = None, control = Ready, dequeued = [Task 1 (Throws_std ''boom'')],
      executed = [], cerr = [], broken = []\<rparr> =
   Some \<lparr>workers = [WStart],
      tasks = [Task 2 Throws_other, Task 3 Returns], stop = False,
      queue_mutex = None, control = Ready, dequeued = [Task 1 (Throws_std ''boom'')],
      executed = [Task 1 (Throws_std ''boom'')], cerr = [], broken = []\<rparr> \<and>
   result_handle
     \<lparr>workers = [WStart],
      tasks = [Task 2 Throws_other, Task 3 Returns], stop = False,
      queue_mutex = None, control = Ready, dequeued = [Task 1 (Throws_std ''boom'')],
      executed = [Task 1 (Throws_std ''boom'')], cerr = [], broken = []\<rparr>
     (Task 1 (Throws_std ''boom'')) = Holds (Throws_std ''boom'')"
proof -
  let ?p = "\<lparr>workers = [WExecuting (Task 1 (Throws_std ''boom''))],
      tasks = [Task 2 Throws_other, Task 3 Returns], stop = False,
      queue_mutex = None, control = Ready, dequeued = [Task 1 (Throws_std ''boom'')],
      executed = [], cerr = [], broken = []\<rparr>"
  let ?q = "\<lparr>workers = [WStart],
      tasks = [Task 2 Throws_other, Task 3 Returns], stop = False,
      queue_mutex = None, control = Ready, dequeued = [Task 1 (Throws_std ''boom'')],
      executed = [Task 1 (Throws_std ''boom'')], cerr = [], broken = []\<rparr>"
  have r: "run [Enqueue (Task 1 (Throws_std ''boom'')), Enqueue (Task 2 Throws_other),
        Enqueue (Task 3 Returns), Work 0, Work 0, Work 0] (ThreadPool 1) = Some ?p"
    by (simp add: model_defs)
  have a: "(0::nat) < length (workers ?p)" by simp
  have b: "workers ?p ! 0 = WExecuting (Task 1 (Throws_std ''boom''))" by simp
  have c: "body (Task 1 (Throws_std ''boom'')) \<noteq> Returns" by simp
  from task_failure_contained [OF a b c]
  have "step (Work 0) ?p =
          Some (?p\<lparr>workers := (workers ?p)[0 := WStart],
                   executed := executed ?p @ [Task 1 (Throws_std ''boom'')]\<rparr>)"
    by blast
  then have s: "step (Work 0) ?p = Some ?q" by simp
  from task_failure_contained [OF a b c] s
  have "result_handle ?q (Task 1 (Throws_std ''boom'')) =
          Holds (body (Task 1 (Throws_std ''boom'')))"
    by blast
  with r s show ?thesis by simp
qed

text \<open>
  C8, as the claim states it, fails: a pool with one worker runs a task that throws a
  standard exception and one that throws something else, and \<open>std::cerr\<close> stays empty.
\<close>

theorem failing_task_writes_no_diagnostic:
  "run [Enqueue (Task 1 (Throws_std ''boom'')), Enqueue (Task 2 Throws_other),
        Work 0, Work 0, Work 0, Work 0, Work 0, Work 0, Work 0, Work 0] (ThreadPool 1) =
   Some \<lparr>workers = [WStart], tasks = [], stop = False, queue_mutex = None, control = Ready,
      dequeued = [Task 1 (Throws_std ''boom''), Task 2 Throws_other],
      executed = [Task 1 (Throws_std ''boom''), Task 2 Throws_other],
      cerr = [], broken = []\<rparr>"
  by (simp add: model_defs)

subsection \<open>Invoking outside the lock\<close>

text \<open>
  C9. In every state a run reaches from the constructor, a worker that is about to invoke
  a task does not hold \<open>queue_mutex\<close>: the step that brought it there released the mutex,
  and the invocation is a step that can be taken.
\<close>

theorem worker_invokes_without_mutex:
  assumes "run es (ThreadPool n) = Some p" and "i < length (workers p)"
    and "workers p ! i = WExecuting t"
  shows "queue_mutex p \<noteq> Some (Worker i) \<and>
         (\<forall>q. step (Work i) q = Some p \<longrightarrow> queue_mutex p = None) \<and>
         step (Work i) p =
           Some (p\<lparr>workers := (workers p)[i := WStart], executed := executed p @ [t],
                   cerr := cerr p @ diagnostic (invoke t)\<rparr>)"
proof -
  from pool_inv_reachable [OF assms(1)] have "lock_inv p" by (simp add: pool_inv_def)
  with assms(3) have a: "queue_mutex p \<noteq> Some (Worker i)"
    by (clarsimp simp: lock_inv_def)
  have b: "\<forall>q. step (Work i) q = Some p \<longrightarrow> queue_mutex p = None"
    using assms(3) by (auto dest: pop_releases_mutex)
  from assms(2,3) have c: "step (Work i) p =
           Some (p\<lparr>workers := (workers p)[i := WStart], executed := executed p @ [t],
                   cerr := cerr p @ diagnostic (invoke t)\<rparr>)"
    by (simp add: worker_step_def)
  from a b c show ?thesis by blast
qed

theorem worker_invokes_without_mutex_witness:
  "run [Enqueue (Task 1 Returns), Work 0, Work 0, Work 0] (ThreadPool 1) =
     Some \<lparr>workers = [WExecuting (Task 1 Returns)], tasks = [], stop = False,
           queue_mutex = None, control = Ready, dequeued = [Task 1 Returns],
           executed = [], cerr = [], broken = []\<rparr> \<and>
   queue_mutex \<lparr>workers = [WExecuting (Task 1 Returns)], tasks = [], stop = False,
           queue_mutex = None, control = Ready, dequeued = [Task 1 Returns],
           executed = [], cerr = [], broken = []\<rparr> \<noteq> Some (Worker 0)"
proof -
  let ?p = "\<lparr>workers = [WExecuting (Task 1 Returns)], tasks = [], stop = False,
           queue_mutex = None, control = Ready, dequeued = [Task 1 Returns],
           executed = [], cerr = [], broken = []\<rparr>"
  have a: "run [Enqueue (Task 1 Returns), Work 0, Work 0, Work 0] (ThreadPool 1) = Some ?p"
    by (simp add: model_defs)
  have b: "(0::nat) < length (workers ?p)" by simp
  have c: "workers ?p ! 0 = WExecuting (Task 1 Returns)" by simp
  from worker_invokes_without_mutex [OF a b c] a show ?thesis by blast
qed

subsection \<open>What clear leaves alone\<close>

text \<open>
  C10. \<open>clear\<close> changes the queue and nothing else: the vector of workers, its length,
  \<open>stop\<close>, the mutex and the owner's place are as before. The log of destroyed tasks
  gains the tasks that were queued; but for this log, the pool after \<open>clear\<close> is the pool
  before it with the queue emptied.
\<close>

theorem clear_frame:
  "workers (clear p) = workers p \<and> length (workers (clear p)) = length (workers p) \<and>
   stop (clear p) = stop p \<and> queue_mutex (clear p) = queue_mutex p \<and>
   control (clear p) = control p \<and> broken (clear p) = broken p @ tasks p \<and>
   (clear p)\<lparr>broken := broken p\<rparr> = p\<lparr>tasks := []\<rparr>"
  by (simp add: clear_def)

theorem clear_frame_witness:
  "run [Enqueue (Task 1 Returns), Enqueue (Task 2 Returns), Work 1, Work 1, Work 1, Work 0]
     (ThreadPool 2) =
     Some \<lparr>workers = [WLocked, WExecuting (Task 1 Returns)],
          tasks = [Task 2 Returns], stop = False, queue_mutex = Some (Worker 0),
          control = Ready, dequeued = [Task 1 Returns], executed = [], cerr = [],
          broken = []\<rparr> \<and>
   clear \<lparr>workers = [WLocked, WExecuting (Task 1 Returns)],
          tasks = [Task 2 Returns], stop = False, queue_mutex = Some (Worker 0),
          control = Ready, dequeued = [Task 1 Returns], executed = [], cerr = [],
          broken = []\<rparr> =
   \<lparr>workers = [WLocked, WExecuting (Task 1 Returns)], tasks = [],
    stop = False, queue_mutex = Some (Worker 0), control = Ready,
    dequeued = [Task 1 Returns], executed = [], cerr = [], broken = [Task 2 Returns]\<rparr>"
proof -
  let ?p = "\<lparr>workers = [WLocked, WExecuting (Task 1 Returns)],
          tasks = [Task 2 Returns], stop = False, queue_mutex = Some (Worker 0),
          control = Ready, dequeued = [Task 1 Returns], executed = [], cerr = [],
          broken = []\<rparr>"
  have r: "run [Enqueue (Task 1 Returns), Enqueue (Task 2 Returns), Work 1, Work 1, Work 1,
      Work 0] (ThreadPool 2) = Some ?p"
    by (simp add: model_defs numeral_2_eq_2)
  from clear_frame [of ?p]
  have "broken (clear ?p) = broken ?p @ tasks ?p"
    and "(clear ?p)\<lparr>broken := broken ?p\<rparr> = ?p\<lparr>tasks := []\<rparr>"
    by blast+
  then have "clear ?p = ?p\<lparr>tasks := [], broken := [Task 2 Returns]\<rparr>"
    by (simp add: clear_def)
  with r show ?thesis by simp
qed

end
